theory Spec2Isabelle
  imports Complex_Main "HOL-Library.Multiset"
begin

section \<open>The model layer: GameState (src/js/models/GameState.js)\<close>

text \<open>
  A tower is a JavaScript array of disk sizes; \<open>push\<close> and \<open>pop\<close> work at the end
  of the array, so a tower is a list whose first element is the bottom disk and whose
  last element is the top disk. \<open>towers\<close> is the array of the towers. Disk sizes, the
  number of disks and tower indices are JavaScript numbers; the model covers the
  integer ones. \<open>selectedTowerIndex\<close> is an index or \<open>null\<close> (\<open>None\<close>).
\<close>

record GameState =
  towers :: "int list list"
  numDisks :: int
  moveCount :: nat
  selectedTowerIndex :: "int option"
  autoSolving :: bool

text \<open>The errors a JavaScript engine raises in the modelled code.\<close>

datatype js_error = TypeError | RangeError

text \<open>
  The three reasons \<open>canMove\<close> gives for an invalid move: its three error strings
  (bad tower index, no disks on the source tower, larger disk onto a smaller one).
\<close>

datatype move_error = BadTowerIndex | SourceTowerEmpty | LargerOntoSmaller

record validation =
  valid :: bool
  error :: "move_error option"

text \<open>\<open>constructor(numDisks = 4)\<close>.\<close>

definition new_GameState :: "int \<Rightarrow> GameState" where
  "new_GameState nd =
     \<lparr>towers = [[], [], []], numDisks = nd, moveCount = 0,
      selectedTowerIndex = None, autoSolving = False\<rparr>"

text \<open>
  \<open>this.towers[i]\<close>: reading an array at an integer index outside
  \<open>0 .. length - 1\<close> gives \<open>undefined\<close> (\<open>None\<close>).
\<close>

definition tower_at :: "int list list \<Rightarrow> int \<Rightarrow> int list option" where
  "tower_at ts i = (if 0 \<le> i \<and> i < int (length ts) then Some (ts ! nat i) else None)"

text \<open>
  The loop of \<open>init\<close>:
  \<^verbatim>\<open>for (let size = this.numDisks; size >= 1; size--) { this.towers[0].push(size); }\<close>
\<close>

function init_loop :: "int \<Rightarrow> GameState \<Rightarrow> GameState" where
  "init_loop sz s =
     (if 1 \<le> sz
      then init_loop (sz - 1) (s\<lparr>towers := (towers s)[0 := towers s ! 0 @ [sz]]\<rparr>)
      else s)"
  by pat_completeness auto
termination
  by (relation "measure (\<lambda>(sz, s). nat sz)") auto

declare init_loop.simps [simp del]

text \<open>\<open>init(numDisks)\<close>; it assigns every field of the object.\<close>

definition init :: "GameState \<Rightarrow> int \<Rightarrow> GameState" where
  "init s nd =
     (let s1 = s\<lparr>numDisks := max 1 (min 15 nd)\<rparr>;
          s2 = s1\<lparr>towers := [[], [], []]\<rparr>;
          s3 = init_loop (numDisks s2) s2;
          s4 = s3\<lparr>moveCount := 0\<rparr>;
          s5 = s4\<lparr>selectedTowerIndex := None\<rparr>
      in s5\<lparr>autoSolving := False\<rparr>)"

text \<open>
  Every method is a function from the object's state to its result and the state
  after the call, so that a method that assigns nothing returns the state it got.

  \<open>getOptimalMoves()\<close> is \<open>Math.pow(2, this.numDisks) - 1\<close>, which the code
  computes in double precision. The model returns the exact value; the two agree
  for the disk counts from 0 to 53, so for the counts 1 to 15 that \<open>init\<close>
  leaves. From 54 on, which only the constructor can set, the double is rounded
  and the model's value is not the code's.
\<close>

definition getOptimalMoves :: "GameState \<Rightarrow> rat \<times> GameState" where
  "getOptimalMoves s = (2 powi (numDisks s) - 1, s)"

text \<open>
  \<open>isGameWon()\<close> is \<open>this.towers[2].length === this.numDisks\<close>; reading
  \<open>length\<close> of \<open>undefined\<close> raises a TypeError.
\<close>

definition isGameWon :: "GameState \<Rightarrow> (js_error + bool) \<times> GameState" where
  "isGameWon s =
     (case tower_at (towers s) 2 of
        None \<Rightarrow> (Inl TypeError, s)
      | Some tower \<Rightarrow> (Inr (int (length tower) = numDisks s), s))"

text \<open>
  \<open>getTopDisk(towerIndex)\<close>: the last element of the tower, \<open>undefined\<close>
  (\<open>None\<close>) for an empty tower, a TypeError when there is no such tower.
\<close>

definition getTopDisk :: "GameState \<Rightarrow> int \<Rightarrow> (js_error + int option) \<times> GameState" where
  "getTopDisk s towerIndex =
     (case tower_at (towers s) towerIndex of
        None \<Rightarrow> (Inl TypeError, s)
      | Some tower \<Rightarrow> (Inr (if length tower > 0 then Some (last tower) else None), s))"

text \<open>
  \<open>canMove(sourceIndex, targetIndex)\<close>. An array, empty or not, is truthy, so
  \<open>!sourceTower\<close> holds exactly for \<open>undefined\<close>. \<open>targetTopDisk\<close> is
  \<open>undefined\<close> exactly when the target tower is empty.
\<close>

definition canMove :: "GameState \<Rightarrow> int \<Rightarrow> int \<Rightarrow> validation \<times> GameState" where
  "canMove s sourceIndex targetIndex =
     (case (tower_at (towers s) sourceIndex, tower_at (towers s) targetIndex) of
        (Some sourceTower, Some targetTower) \<Rightarrow>
          if length sourceTower = 0
          then (\<lparr>valid = False, error = Some SourceTowerEmpty\<rparr>, s)
          else
            let movingDisk = last sourceTower;
                targetTopDisk = (if targetTower = [] then None else Some (last targetTower))
            in (case targetTopDisk of
                  Some topDisk \<Rightarrow>
                    if topDisk < movingDisk
                    then (\<lparr>valid = False, error = Some LargerOntoSmaller\<rparr>, s)
                    else (\<lparr>valid = True, error = None\<rparr>, s)
                | None \<Rightarrow> (\<lparr>valid = True, error = None\<rparr>, s))
      | _ \<Rightarrow> (\<lparr>valid = False, error = Some BadTowerIndex\<rparr>, s))"

text \<open>
  \<open>performMove(sourceIndex, targetIndex)\<close>. After a valid verdict both indices
  name a tower and the source tower is not empty, so \<open>pop\<close> returns its last
  element; \<open>push\<close> then reads the target tower as \<open>pop\<close> left it.
\<close>

definition performMove :: "GameState \<Rightarrow> int \<Rightarrow> int \<Rightarrow> bool \<times> GameState" where
  "performMove s sourceIndex targetIndex =
     (let (validation, s1) = canMove s sourceIndex targetIndex
      in if \<not> valid validation then (False, s1)
         else
           let disk = last (towers s1 ! nat sourceIndex);
               s2 = s1\<lparr>towers := (towers s1)[nat sourceIndex := butlast (towers s1 ! nat sourceIndex)]\<rparr>;
               s3 = s2\<lparr>towers := (towers s2)[nat targetIndex := towers s2 ! nat targetIndex @ [disk]]\<rparr>;
               s4 = s3\<lparr>moveCount := moveCount s3 + 1\<rparr>
           in (True, s4))"

text \<open>\<open>selectTower(index)\<close> and \<open>setAutoSolving(value)\<close>.\<close>

definition selectTower :: "GameState \<Rightarrow> int option \<Rightarrow> GameState" where
  "selectTower s index = s\<lparr>selectedTowerIndex := index\<rparr>"

definition setAutoSolving :: "GameState \<Rightarrow> bool \<Rightarrow> GameState" where
  "setAutoSolving s v = s\<lparr>autoSolving := v\<rparr>"

text \<open>
  A sequence of \<open>performMove\<close> calls, one for each pair \<open>(from, to)\<close> of the
  list, in order. The boolean is the conjunction of the results of the calls.
\<close>

fun playMoves :: "GameState \<Rightarrow> (int \<times> int) list \<Rightarrow> bool \<times> GameState" where
  "playMoves s [] = (True, s)"
| "playMoves s (m # ms) =
     (let (ok, s1) = performMove s (fst m) (snd m);
          (oks, s2) = playMoves s1 ms
      in (ok \<and> oks, s2))"

text \<open>The tower \<open>n, n - 1, \<dots>, 1\<close>, bottom first.\<close>

fun desc :: "nat \<Rightarrow> int list" where
  "desc 0 = []"
| "desc (Suc n) = int (Suc n) # desc n"

section \<open>The service layer: Solver (src/unnamed/part_000)\<close>

text \<open>
  \<open>timer\<close> is the handle \<open>setInterval\<close> returned, or \<open>null\<close> (\<open>None\<close>).
  A move is the pair \<open>[from, to]\<close>.
\<close>

record Solver =
  moves :: "(int \<times> int) list"
  currentMoveIndex :: nat
  timer :: "nat option"

definition new_Solver :: Solver where
  "new_Solver = \<lparr>moves = [], currentMoveIndex = 0, timer = None\<rparr>"

text \<open>
  \<open>generateSolution(n, from, to, aux, moves)\<close> pushes onto the array it is given;
  the model returns the array after the call. The only base case is \<open>n === 1\<close>.
  \<open>None\<close> stands for a call that never returns.
\<close>

partial_function (option) generateSolution ::
  "int \<Rightarrow> int \<Rightarrow> int \<Rightarrow> int \<Rightarrow> (int \<times> int) list \<Rightarrow> (int \<times> int) list option" where
  "generateSolution n frm dst aux ms =
     (if n = 1 then Some (ms @ [(frm, dst)])
      else
        Option.bind (generateSolution (n - 1) frm aux dst ms) (\<lambda>ms1.
          generateSolution (n - 1) aux dst frm (ms1 @ [(frm, dst)])))"

declare generateSolution.simps [code]

text \<open>
  \<open>prepareSolution(numDisks)\<close>. \<open>this.moves\<close> is the array handed to
  \<open>generateSolution\<close>, so it holds the generated moves afterwards. A recursion that
  never reaches its base case exhausts the engine's call stack, which raises a
  RangeError; it does so before any move is pushed, after the two assignments.
\<close>

definition prepareSolution :: "Solver \<Rightarrow> int \<Rightarrow> (js_error + (int \<times> int) list) \<times> Solver" where
  "prepareSolution sv n =
     (let sv1 = sv\<lparr>moves := []\<rparr>;
          sv2 = sv1\<lparr>currentMoveIndex := 0\<rparr>
      in case generateSolution n 0 2 1 (moves sv2) of
           None \<Rightarrow> (Inl RangeError, sv2)
         | Some ms \<Rightarrow> (Inr ms, sv2\<lparr>moves := ms\<rparr>))"

text \<open>\<open>getNextMove()\<close>, \<open>hasMoreMoves()\<close>, \<open>isRunning()\<close>, \<open>getTotalMoves()\<close>.\<close>

definition getNextMove :: "Solver \<Rightarrow> (int \<times> int) option \<times> Solver" where
  "getNextMove sv =
     (if currentMoveIndex sv \<ge> length (moves sv) then (None, sv)
      else (Some (moves sv ! currentMoveIndex sv),
            sv\<lparr>currentMoveIndex := currentMoveIndex sv + 1\<rparr>))"

definition hasMoreMoves :: "Solver \<Rightarrow> bool" where
  "hasMoreMoves sv = (currentMoveIndex sv < length (moves sv))"

definition isRunning :: "Solver \<Rightarrow> bool" where
  "isRunning sv = (timer sv \<noteq> None)"

definition getTotalMoves :: "Solver \<Rightarrow> nat" where
  "getTotalMoves sv = length (moves sv)"

text \<open>
  The moves of the recursion of \<open>generateSolution\<close>, by recursion on the number of
  disks; used to describe what \<open>generateSolution\<close> returns.
\<close>

fun hanoi :: "nat \<Rightarrow> int \<Rightarrow> int \<Rightarrow> int \<Rightarrow> (int \<times> int) list" where
  "hanoi 0 frm dst aux = []"
| "hanoi (Suc n) frm dst aux = hanoi n frm aux dst @ [(frm, dst)] @ hanoi n aux dst frm"

text \<open>
  Scenario A of the specification: \<open>init(3)\<close>, then \<open>performMove(0, 2)\<close>, then
  \<open>performMove(0, 1)\<close>.
\<close>

definition scenarioA :: "GameState \<Rightarrow> GameState" where
  "scenarioA s0 = snd (performMove (snd (performMove (init s0 3) 0 2)) 0 1)"

text \<open>
  A tower is \<open>decreasing\<close> when its disks get strictly smaller from the bottom to
  the top. \<open>towers_ok\<close>: there are three towers, each decreasing, and together they
  hold each of the sizes \<open>1, \<dots>, numDisks\<close> once.
\<close>

definition decreasing :: "int list \<Rightarrow> bool" where
  "decreasing xs = sorted_wrt (\<lambda>lower upper. lower > upper) xs"

definition towers_ok :: "GameState \<Rightarrow> bool" where
  "towers_ok s =
     (length (towers s) = 3
      \<and> (\<forall>i < 3. decreasing (towers s ! i))
      \<and> mset (concat (towers s)) = mset [1..numDisks s])"

text \<open>\<open>above n xs\<close>: the tower \<open>xs\<close> can take the disks \<open>n, \<dots>, 1\<close> on top.\<close>

definition above :: "nat \<Rightarrow> int list \<Rightarrow> bool" where
  "above n xs = (xs = [] \<or> int n < last xs)"

section \<open>Timed playback: startAutoPlay and stop (src/unnamed/part_000)\<close>

text \<open>
  \<open>startAutoPlay\<close> and \<open>stop\<close> work on the timers of the host: \<open>setInterval\<close>
  schedules a repeating callback and returns a fresh positive handle,
  \<open>clearInterval(h)\<close> removes the interval with handle \<open>h\<close>, and the host runs the
  callback of an interval only while that interval is scheduled. The delay between
  two runs plays no part in what follows and is left out.

  \<open>Playback\<close> is the solver together with this part of the host: the handles of
  the scheduled intervals, the handle the next \<open>setInterval\<close> will return, and the
  calls of \<open>onMove\<close> and \<open>onComplete\<close> made so far, oldest first. A call carries the
  handle of the interval that made it, which identifies the \<open>startAutoPlay\<close> call
  (the playback session) whose callbacks they are. Both callbacks are given, and
  they do not call the solver (those of GameController do not).
\<close>

datatype callback = OnMove nat int int | OnComplete nat

record Playback =
  solver :: Solver
  intervals :: "nat list"
  nextHandle :: nat
  calls :: "callback list"

text \<open>A new \<open>Solver\<close> in a host with no interval scheduled.\<close>

definition new_Playback :: Playback where
  "new_Playback = \<lparr>solver = new_Solver, intervals = [], nextHandle = 1, calls = []\<rparr>"

text \<open>
  \<open>startAutoPlay(onMove, onComplete, delay)\<close>: \<open>this.timer = setInterval(\<dots>)\<close>.
  Nothing is done about an interval that \<open>this.timer\<close> may already name.
\<close>

definition startAutoPlay :: "Playback \<Rightarrow> Playback" where
  "startAutoPlay pb =
     (let h = nextHandle pb;
          pb1 = pb\<lparr>intervals := intervals pb @ [h], nextHandle := h + 1\<rparr>
      in pb1\<lparr>solver := (solver pb1)\<lparr>timer := Some h\<rparr>\<rparr>)"

text \<open>
  \<open>stop()\<close>. \<open>if (this.timer)\<close> holds for a handle other than 0; \<open>null\<close> and 0
  are falsy.
\<close>

definition stop :: "Playback \<Rightarrow> Playback" where
  "stop pb =
     (let pb1 = (case timer (solver pb) of
                   None \<Rightarrow> pb
                 | Some h \<Rightarrow>
                     if h \<noteq> 0
                     then pb\<lparr>intervals := removeAll h (intervals pb),
                             solver := (solver pb)\<lparr>timer := None\<rparr>\<rparr>
                     else pb);
          pb2 = pb1\<lparr>solver := (solver pb1)\<lparr>moves := []\<rparr>\<rparr>
      in pb2\<lparr>solver := (solver pb2)\<lparr>currentMoveIndex := 0\<rparr>\<rparr>)"

text \<open>
  One run of the callback that \<open>startAutoPlay\<close> gave to \<open>setInterval\<close>, for the
  interval with handle \<open>h\<close>. \<open>!move\<close> holds exactly when \<open>getNextMove\<close> returned
  \<open>null\<close>.
\<close>

definition tick :: "Playback \<Rightarrow> nat \<Rightarrow> Playback" where
  "tick pb h =
     (let (move, sv1) = getNextMove (solver pb);
          pb1 = pb\<lparr>solver := sv1\<rparr>
      in case move of
           None \<Rightarrow> (let pb2 = stop pb1 in pb2\<lparr>calls := calls pb2 @ [OnComplete h]\<rparr>)
         | Some (frm, dst) \<Rightarrow> pb1\<lparr>calls := calls pb1 @ [OnMove h frm dst]\<rparr>)"

text \<open>
  What can happen to a playback: a call of \<open>prepareSolution\<close>, \<open>startAutoPlay\<close> or
  \<open>stop\<close>, or the host running the callback of the interval with handle \<open>h\<close>,
  which it does only if that interval is scheduled. \<open>run\<close> lets a list of events
  happen in order.
\<close>

datatype event = PrepareSolution int | StartAutoPlay | Tick nat | Stop

fun fire :: "Playback \<Rightarrow> event \<Rightarrow> Playback" where
  "fire pb (PrepareSolution n) = pb\<lparr>solver := snd (prepareSolution (solver pb) n)\<rparr>"
| "fire pb StartAutoPlay = startAutoPlay pb"
| "fire pb (Tick h) = (if h \<in> set (intervals pb) then tick pb h else pb)"
| "fire pb Stop = stop pb"

fun run :: "Playback \<Rightarrow> event list \<Rightarrow> Playback" where
  "run pb [] = pb"
| "run pb (ev # evs) = run (fire pb ev) evs"

text \<open>
  A list of events is \<open>orderly\<close> when each \<open>startAutoPlay\<close> in it happens while
  \<open>this.timer\<close> is \<open>null\<close>. GameController keeps to this: \<open>startAutoSolve\<close> calls
  \<open>initGame\<close>, which calls \<open>stop\<close>, before it calls \<open>startAutoPlay\<close>.
\<close>

fun orderly :: "Playback \<Rightarrow> event list \<Rightarrow> bool" where
  "orderly pb [] = True"
| "orderly pb (StartAutoPlay # evs) =
     (timer (solver pb) = None \<and> orderly (fire pb StartAutoPlay) evs)"
| "orderly pb (ev # evs) = orderly (fire pb ev) evs"

text \<open>
  The invariant of an orderly playback: handles are positive and below the next
  one, the scheduled intervals are exactly the one \<open>this.timer\<close> names, and each
  session has completed at most once and is no longer scheduled once it has.
\<close>

definition playing :: "Playback \<Rightarrow> bool" where
  "playing pb =
     (0 < nextHandle pb
      \<and> set (intervals pb) = set_option (timer (solver pb))
      \<and> (\<forall>h \<in> set (intervals pb). 0 < h \<and> h < nextHandle pb)
      \<and> (\<forall>h. count_list (calls pb) (OnComplete h) \<le> 1)
      \<and> (\<forall>h. OnComplete h \<in> set (calls pb) \<longrightarrow> h < nextHandle pb \<and> h \<notin> set (intervals pb)))"

section \<open>Initialisation\<close>

lemma init_loop_towers:
  "0 \<le> sz \<Longrightarrow> towers s = [t, b, c] \<Longrightarrow>
   init_loop sz s = s\<lparr>towers := [t @ rev [1..sz], b, c]\<rparr>"
proof (induction sz s arbitrary: t rule: init_loop.induct)
  case (1 sz s)
  show ?case
  proof (cases "1 \<le> sz")
    case True
    let ?s' = "s\<lparr>towers := (towers s)[0 := towers s ! 0 @ [sz]]\<rparr>"
    have tw: "towers ?s' = [t @ [sz], b, c]"
      using "1.prems" by simp
    have "init_loop sz s = init_loop (sz - 1) ?s'"
      using True by (subst init_loop.simps) simp
    also have "\<dots> = ?s'\<lparr>towers := [(t @ [sz]) @ rev [1..sz - 1], b, c]\<rparr>"
      using "1.IH" [OF True _ tw] True by simp
    also have "\<dots> = s\<lparr>towers := [t @ rev [1..sz], b, c]\<rparr>"
      using True by (simp add: upto_rec2 [of 1 sz])
    finally show ?thesis .
  next
    case False
    with "1.prems" have "sz = 0" by simp
    then show ?thesis
      using "1.prems" by (subst init_loop.simps) simp
  qed
qed

lemma init_eq:
  "init s nd =
     \<lparr>towers = [rev [1..max 1 (min 15 nd)], [], []], numDisks = max 1 (min 15 nd),
      moveCount = 0, selectedTowerIndex = None, autoSolving = False\<rparr>"
proof -
  let ?n = "max 1 (min 15 nd)"
  let ?s2 = "s\<lparr>numDisks := ?n, towers := [[], [], []]\<rparr>"
  have "init_loop ?n ?s2 = ?s2\<lparr>towers := [[] @ rev [1..?n], [], []]\<rparr>"
    by (rule init_loop_towers) simp_all
  then show ?thesis
    by (simp add: init_def Let_def)
qed

text \<open>
  Claim C6. For every integer \<open>d\<close>, \<open>init(d)\<close> returns normally with the number
  of disks clamped to \<open>[1, 15]\<close> (1 for \<open>d = 0\<close>, 15 for \<open>d = 20\<close>); tower 0
  holds the disks \<open>numDisks, numDisks - 1, \<dots>, 1\<close> with the largest at the bottom,
  towers 1 and 2 are empty, the move count is 0, no tower is selected and the
  auto-solving flag is off, whatever the state was before.
\<close>

theorem init_resets_and_clamps:
  "init s d =
     \<lparr>towers = [rev [1..max 1 (min 15 d)], [], []], numDisks = max 1 (min 15 d),
      moveCount = 0, selectedTowerIndex = None, autoSolving = False\<rparr>
   \<and> 1 \<le> numDisks (init s d) \<and> numDisks (init s d) \<le> 15
   \<and> numDisks (init s 0) = 1 \<and> numDisks (init s 20) = 15
   \<and> towers (init s 3) = [[3, 2, 1], [], []]"
proof -
  have "[1..3::int] = [1, 2, 3]"
    by (simp add: upto_rec1)
  then show ?thesis
    by (simp add: init_eq)
qed

section \<open>Validating and performing a move\<close>

lemma canMove_state: "snd (canMove s src tgt) = s"
  by (simp add: canMove_def Let_def split: option.splits)

lemma canMove_valid_iff:
  "valid (fst (canMove s src tgt)) \<longleftrightarrow>
     (0 \<le> src \<and> src < int (length (towers s)) \<and> 0 \<le> tgt \<and> tgt < int (length (towers s))
      \<and> towers s ! nat src \<noteq> []
      \<and> (towers s ! nat tgt = [] \<or> \<not> last (towers s ! nat tgt) < last (towers s ! nat src)))"
  by (auto simp: canMove_def tower_at_def Let_def split: option.splits)

lemma performMove_invalid:
  "\<not> valid (fst (canMove s src tgt)) \<Longrightarrow> performMove s src tgt = (False, s)"
  using canMove_state [of s src tgt]
  by (cases "canMove s src tgt") (simp add: performMove_def)

lemma performMove_valid:
  "valid (fst (canMove s src tgt)) \<Longrightarrow>
   performMove s src tgt =
     (True, s\<lparr>towers := ((towers s)[nat src := butlast (towers s ! nat src)])
                 [nat tgt := ((towers s)[nat src := butlast (towers s ! nat src)]) ! nat tgt
                              @ [last (towers s ! nat src)]],
              moveCount := moveCount s + 1\<rparr>)"
  using canMove_state [of s src tgt]
  by (cases "canMove s src tgt") (simp add: performMove_def Let_def)

lemma init3: "init s0 3 = \<lparr>towers = [[3, 2, 1], [], []], numDisks = 3, moveCount = 0,
      selectedTowerIndex = None, autoSolving = False\<rparr>"
proof -
  have "[1..3::int] = [1, 2, 3]"
    by (simp add: upto_rec1)
  then show ?thesis
    by (simp add: init_eq)
qed

lemma scenarioA_eq: "scenarioA s0 = \<lparr>towers = [[3], [2], [1]], numDisks = 3, moveCount = 2,
      selectedTowerIndex = None, autoSolving = False\<rparr>"
  by (simp add: scenarioA_def init3 performMove_valid canMove_valid_iff)

text \<open>
  Claim C3. In a state with three towers, \<open>canMove(source, target)\<close> is invalid
  exactly when an index is outside \<open>{0, 1, 2}\<close>, or the source tower is empty, or the
  top disk of the target tower is strictly smaller than the top disk of the source
  tower. In particular a move onto an empty tower is valid, and so is a move onto a
  strictly larger disk.
\<close>

theorem canMove_verdict:
  assumes "length (towers s) = 3"
  shows "(\<not> valid (fst (canMove s src tgt))) =
           (src \<notin> {0, 1, 2} \<or> tgt \<notin> {0, 1, 2}
            \<or> (src \<in> {0, 1, 2} \<and> tgt \<in> {0, 1, 2}
                \<and> (towers s ! nat src = []
                    \<or> (towers s ! nat tgt \<noteq> []
                        \<and> last (towers s ! nat tgt) < last (towers s ! nat src)))))
         \<and> (src \<in> {0, 1, 2} \<and> tgt \<in> {0, 1, 2} \<and> towers s ! nat src \<noteq> []
              \<and> towers s ! nat tgt = [] \<longrightarrow> valid (fst (canMove s src tgt)))
         \<and> (src \<in> {0, 1, 2} \<and> tgt \<in> {0, 1, 2} \<and> towers s ! nat src \<noteq> []
              \<and> towers s ! nat tgt \<noteq> []
              \<and> last (towers s ! nat src) < last (towers s ! nat tgt)
              \<longrightarrow> valid (fst (canMove s src tgt)))"
proof -
  have r: "\<And>i::int. (0 \<le> i \<and> i < int (length (towers s))) = (i \<in> {0, 1, 2})"
    using assms by auto
  have v: "valid (fst (canMove s src tgt)) =
      (src \<in> {0, 1, 2} \<and> tgt \<in> {0, 1, 2} \<and> towers s ! nat src \<noteq> []
      \<and> (towers s ! nat tgt = [] \<or> \<not> last (towers s ! nat tgt) < last (towers s ! nat src)))"
    using r [of src] r [of tgt] by (simp only: canMove_valid_iff) blast
  show ?thesis
    unfolding v by (intro conjI; linarith)
qed

theorem canMove_verdict_witness:
  "length (towers (scenarioA (new_GameState 4))) = 3
   \<and> \<not> valid (fst (canMove (scenarioA (new_GameState 4)) 1 2))
   \<and> \<not> valid (fst (canMove (scenarioA (new_GameState 4)) 0 3))
   \<and> valid (fst (canMove (scenarioA (new_GameState 4)) 2 1))"
  using canMove_verdict [of "scenarioA (new_GameState 4)" 1 2]
    canMove_verdict [of "scenarioA (new_GameState 4)" 0 3]
    canMove_verdict [of "scenarioA (new_GameState 4)" 2 1]
  by (simp add: scenarioA_eq)


text \<open>
  Claim C4. \<open>performMove\<close> validates the move with \<open>canMove\<close>. An invalid move
  returns \<open>false\<close> and leaves the whole state as it was. A valid move returns
  \<open>true\<close>: the source tower loses its top disk, the target tower gains that disk on
  top, the third tower is untouched, the move count grows by one and the other
  fields keep their values. No branch raises an error.
\<close>

theorem performMove_effect:
  "(\<not> valid (fst (canMove s src tgt)) \<longrightarrow> performMove s src tgt = (False, s))
   \<and> (valid (fst (canMove s src tgt)) \<longrightarrow>
        fst (performMove s src tgt) = True
        \<and> 0 \<le> src \<and> nat src < length (towers s) \<and> 0 \<le> tgt \<and> nat tgt < length (towers s)
        \<and> towers s ! nat src \<noteq> []
        \<and> length (towers (snd (performMove s src tgt))) = length (towers s)
        \<and> (src \<noteq> tgt \<longrightarrow>
              towers (snd (performMove s src tgt)) ! nat src = butlast (towers s ! nat src)
              \<and> towers (snd (performMove s src tgt)) ! nat tgt
                  = towers s ! nat tgt @ [last (towers s ! nat src)])
        \<and> (src = tgt \<longrightarrow>
              towers (snd (performMove s src tgt)) ! nat src
                = butlast (towers s ! nat src) @ [last (towers s ! nat src)])
        \<and> (\<forall>k < length (towers s). k \<noteq> nat src \<longrightarrow> k \<noteq> nat tgt \<longrightarrow>
              towers (snd (performMove s src tgt)) ! k = towers s ! k)
        \<and> moveCount (snd (performMove s src tgt)) = moveCount s + 1
        \<and> numDisks (snd (performMove s src tgt)) = numDisks s
        \<and> selectedTowerIndex (snd (performMove s src tgt)) = selectedTowerIndex s
        \<and> autoSolving (snd (performMove s src tgt)) = autoSolving s)"
proof (cases "valid (fst (canMove s src tgt))")
  case False
  then show ?thesis
    by (simp add: performMove_invalid)
next
  case True
  then have rng: "0 \<le> src" "nat src < length (towers s)" "0 \<le> tgt" "nat tgt < length (towers s)"
    and ne: "towers s ! nat src \<noteq> []"
    by (auto simp: canMove_valid_iff)
  have neq: "src \<noteq> tgt \<Longrightarrow> nat src \<noteq> nat tgt"
    using rng by simp
  note pm = performMove_valid [OF True]
  show ?thesis
    unfolding pm using True rng ne neq by (simp add: nth_list_update)
qed

theorem performMove_effect_witness:
  "\<not> valid (fst (canMove (init (new_GameState 4) 3) 1 2))
   \<and> performMove (init (new_GameState 4) 3) 1 2 = (False, init (new_GameState 4) 3)
   \<and> valid (fst (canMove (init (new_GameState 4) 3) 0 2))
   \<and> fst (performMove (init (new_GameState 4) 3) 0 2) = True
   \<and> towers (snd (performMove (init (new_GameState 4) 3) 0 2)) ! 0 = [3, 2]
   \<and> towers (snd (performMove (init (new_GameState 4) 3) 0 2)) ! 2 = [1]
   \<and> towers (snd (performMove (init (new_GameState 4) 3) 0 2)) ! 1 = []
   \<and> moveCount (snd (performMove (init (new_GameState 4) 3) 0 2)) = 1"
proof -
  have inv: "\<not> valid (fst (canMove (init (new_GameState 4) 3) 1 2))"
    and v: "valid (fst (canMove (init (new_GameState 4) 3) 0 2))"
    by (simp_all add: canMove_valid_iff init3)
  show ?thesis
    using inv v performMove_effect [of "init (new_GameState 4) 3" 1 2]
      performMove_effect [of "init (new_GameState 4) 3" 0 2]
    by (simp add: init3)
qed

text \<open>
  Claim C8 says that a move from a tower to itself is invalid. \<open>canMove\<close> does not
  compare the two indices: right after \<open>init(3)\<close>, \<open>canMove(0, 0)\<close> is valid.
\<close>

theorem canMove_same_tower_counterexample:
  "valid (fst (canMove (init (new_GameState 4) 3) 0 0))"
  by (simp add: canMove_valid_iff init3)

text \<open>
  Claim C8, amended. In a state with three towers and for an index \<open>i\<close> in
  \<open>{0, 1, 2}\<close>, \<open>canMove(i, i)\<close> is valid exactly when tower \<open>i\<close> is not empty.
\<close>

theorem canMove_same_tower:
  "length (towers s) = 3 \<Longrightarrow> i \<in> {0, 1, 2} \<Longrightarrow>
   valid (fst (canMove s i i)) = (towers s ! nat i \<noteq> [])"
  by (auto simp: canMove_valid_iff)

theorem canMove_same_tower_witness:
  "length (towers (scenarioA (new_GameState 4))) = 3 \<and> (1::int) \<in> {0, 1, 2}
   \<and> valid (fst (canMove (scenarioA (new_GameState 4)) 1 1))
   \<and> towers (scenarioA (new_GameState 4)) ! nat 1 \<noteq> []"
  using canMove_same_tower [of "scenarioA (new_GameState 4)" 1]
  by (simp add: scenarioA_eq)

text \<open>
  Claim C7 says that \<open>performMove(2, 1)\<close> is rejected in the state of Scenario A.
  It is accepted: the verdict is valid, the call returns \<open>true\<close> and the state
  changes.
\<close>

theorem scenarioA_move_accepted_counterexample:
  "valid (fst (canMove (scenarioA (new_GameState 4)) 2 1))
   \<and> fst (performMove (scenarioA (new_GameState 4)) 2 1) = True
   \<and> snd (performMove (scenarioA (new_GameState 4)) 2 1) \<noteq> scenarioA (new_GameState 4)"
  by (simp add: scenarioA_eq performMove_valid canMove_valid_iff)

text \<open>
  Claim C7, amended. Scenario A reaches the towers \<open>[[3], [2], [1]]\<close> with two
  moves counted; there \<open>performMove(2, 1)\<close> is valid (disk 1 goes onto the larger
  disk 2), returns \<open>true\<close> and gives the towers \<open>[[3], [2, 1], []]\<close> with three moves
  counted.
\<close>

theorem scenarioA_move_accepted:
  "scenarioA s0 = \<lparr>towers = [[3], [2], [1]], numDisks = 3, moveCount = 2,
                   selectedTowerIndex = None, autoSolving = False\<rparr>
   \<and> fst (canMove (scenarioA s0) 2 1) = \<lparr>valid = True, error = None\<rparr>
   \<and> performMove (scenarioA s0) 2 1 =
       (True, \<lparr>towers = [[3], [2, 1], []], numDisks = 3, moveCount = 3,
               selectedTowerIndex = None, autoSolving = False\<rparr>)"
proof -
  have "fst (canMove (scenarioA s0) 2 1) = \<lparr>valid = True, error = None\<rparr>"
    by (simp add: scenarioA_eq canMove_def tower_at_def)
  then show ?thesis
    by (simp add: scenarioA_eq performMove_valid)
qed

text \<open>
  Claim C10. The observers \<open>canMove\<close>, \<open>getTopDisk\<close>, \<open>isGameWon\<close> and
  \<open>getOptimalMoves\<close> return the state they were called in, for every state and
  every argument, also when \<open>getTopDisk\<close> or \<open>isGameWon\<close> raises.
\<close>

theorem observers_leave_state:
  "snd (canMove s src tgt) = s \<and> snd (getTopDisk s i) = s
   \<and> snd (isGameWon s) = s \<and> snd (getOptimalMoves s) = s"
  by (simp add: canMove_state getTopDisk_def isGameWon_def getOptimalMoves_def
      split: option.splits)

section \<open>The generated solution\<close>

lemma generateSolution_returns_pos:
  assumes "generateSolution n f t a ms = Some y" shows "1 \<le> n"
proof (rule generateSolution.raw_induct [where P = "\<lambda>n f t a ms y. 1 \<le> n", OF _ assms])
  fix gen :: "int \<Rightarrow> int \<Rightarrow> int \<Rightarrow> int \<Rightarrow> (int \<times> int) list \<Rightarrow> (int \<times> int) list option"
    and n frm dst aux :: int and ms y :: "(int \<times> int) list"
  assume IH: "\<And>n frm dst aux ms y. gen n frm dst aux ms = Some y \<Longrightarrow> 1 \<le> n"
    and body: "(if n = 1 then Some (ms @ [(frm, dst)])
      else Option.bind (gen (n - 1) frm aux dst ms)
            (\<lambda>ms1. gen (n - 1) aux dst frm (ms1 @ [(frm, dst)]))) = Some y"
  show "1 \<le> n"
  proof (cases "n = 1")
    case True then show ?thesis by simp
  next
    case False
    with body obtain ms1 where "gen (n - 1) frm aux dst ms = Some ms1"
      by (auto split: bind_splits)
    from IH [OF this] show ?thesis by simp
  qed
qed
lemma gen_hanoi: "1 \<le> n \<Longrightarrow> generateSolution n f t a ms = Some (ms @ hanoi (nat n) f t a)"
proof (induction n arbitrary: f t a ms rule: int_ge_induct)
  case base
  show ?case by (subst generateSolution.simps) simp
next
  case (step i)
  have n: "nat (i + 1) = Suc (nat i)"
    using step.hyps by simp
  have "generateSolution (i + 1) f t a ms =
        Option.bind (generateSolution i f a t ms)
          (\<lambda>ms1. generateSolution i a t f (ms1 @ [(f, t)]))"
    using step.hyps by (subst generateSolution.simps) simp
  also have "\<dots> = Some (ms @ hanoi (Suc (nat i)) f t a)"
    by (simp add: step.IH)
  finally show ?case
    by (simp only: n)
qed

text \<open>
  Claim C5 says that \<open>prepareSolution(0)\<close> returns the empty sequence. The recursion
  of \<open>generateSolution\<close> stops only at \<open>n === 1\<close>, so from \<open>n = 0\<close> it descends
  through the negative numbers and never returns: the call ends in the engine's
  stack-overflow error, not in an empty list.
\<close>

theorem prepareSolution_zero_no_result:
  "generateSolution 0 0 2 1 [] = None \<and> fst (prepareSolution sv 0) = Inl RangeError"
proof -
  have "generateSolution 0 0 2 1 [] = None"
    using generateSolution_returns_pos [of 0 0 2 1 "[]"]
    by (cases "generateSolution 0 0 2 1 []") auto
  then show ?thesis
    by (simp add: prepareSolution_def)
qed

section \<open>Playing the generated solution\<close>

lemma performMove_result: "fst (performMove s src tgt) = valid (fst (canMove s src tgt))"
  by (cases "valid (fst (canMove s src tgt))") (simp_all add: performMove_invalid performMove_valid)

lemma playMoves_append:
  "playMoves s (xs @ ys) =
     (let (ok1, s1) = playMoves s xs; (ok2, s2) = playMoves s1 ys in (ok1 \<and> ok2, s2))"
  by (induction xs arbitrary: s) (auto simp: Let_def split: prod.splits)

lemma length_hanoi: "length (hanoi n f t a) = 2 ^ n - 1"
proof (induction n arbitrary: f t a)
  case 0
  show ?case by simp
next
  case (Suc n)
  have "(1::nat) \<le> 2 ^ n" by simp
  then show ?case
    by (simp add: Suc.IH)
qed

lemma rev_upto_desc: "rev [1..int n] = desc n"
proof (induction n)
  case 0
  show ?case by simp
next
  case (Suc n)
  have "[1..int (Suc n)] = [1..int n] @ [int (Suc n)]"
    using upto_rec2 [of 1 "int (Suc n)"] by simp
  then show ?case
    using Suc.IH by simp
qed

lemma length_desc: "length (desc n) = n"
  by (induction n) simp_all

lemma desc_Suc_append: "A @ desc (Suc n) = (A @ [int (Suc n)]) @ desc n"
  by simp

lemma performMove_step:
  assumes len: "length (towers s) = 3"
    and idx: "f \<in> {0, 1, 2}" "t \<in> {0, 1, 2}" "f \<noteq> t"
    and src: "towers s ! nat f = A @ [d]"
    and tgt: "towers s ! nat t = B"
    and ok: "B = [] \<or> d < last B"
  shows "performMove s f t =
           (True, s\<lparr>towers := (towers s)[nat f := A, nat t := B @ [d]],
                    moveCount := moveCount s + 1\<rparr>)"
proof -
  have v: "valid (fst (canMove s f t))"
    using len idx src tgt ok by (auto simp: canMove_valid_iff)
  have "nat f \<noteq> nat t" "nat f < 3" "nat t < 3"
    using idx by auto
  then show ?thesis
    using len src tgt by (simp add: performMove_valid [OF v])
qed

lemma hanoi_play:
  assumes "length (towers s) = 3"
    and "f \<in> {0, 1, 2}" "t \<in> {0, 1, 2}" "a \<in> {0, 1, 2}" "f \<noteq> t" "f \<noteq> a" "t \<noteq> a"
    and "towers s ! nat f = A @ desc n" "towers s ! nat t = B" "towers s ! nat a = C"
    and "above n A" "above n B" "above n C"
  shows "\<exists>s'. playMoves s (hanoi n f t a) = (True, s')
            \<and> length (towers s') = 3
            \<and> towers s' ! nat f = A \<and> towers s' ! nat t = B @ desc n \<and> towers s' ! nat a = C
            \<and> moveCount s' = moveCount s + (2 ^ n - 1) \<and> numDisks s' = numDisks s"
  using assms
proof (induction n arbitrary: s f t a A B C)
  case 0
  then show ?case by simp
next
  case (Suc n)
  let ?d = "int (Suc n)"
  have abA: "above n (A @ [?d])" and abB: "above n B" and abC: "above n C"
    and abB': "above n (B @ [?d])" and abA': "above n A"
    using Suc.prems(11-13) by (auto simp: above_def)
  have srcf: "towers s ! nat f = (A @ [?d]) @ desc n"
    using Suc.prems(8) by simp
  \<comment> \<open>the upper \<open>n\<close> disks go from \<open>f\<close> to \<open>a\<close>\<close>
  from Suc.IH [OF Suc.prems(1) Suc.prems(2) Suc.prems(4) Suc.prems(3) Suc.prems(6) Suc.prems(5)
      Suc.prems(7) [symmetric] srcf Suc.prems(10) Suc.prems(9) abA abC abB]
  obtain s1 where s1: "playMoves s (hanoi n f a t) = (True, s1)" "length (towers s1) = 3"
    "towers s1 ! nat f = A @ [?d]" "towers s1 ! nat a = C @ desc n" "towers s1 ! nat t = B"
    "moveCount s1 = moveCount s + (2 ^ n - 1)" "numDisks s1 = numDisks s"
    by blast
  \<comment> \<open>disk \<open>n + 1\<close> goes from \<open>f\<close> to \<open>t\<close>\<close>
  have okB: "B = [] \<or> ?d < last B"
    using Suc.prems(12) by (simp add: above_def)
  define s2 where "s2 = s1\<lparr>towers := (towers s1)[nat f := A, nat t := B @ [?d]],
                    moveCount := moveCount s1 + 1\<rparr>"
  have pm: "performMove s1 f t = (True, s2)"
    unfolding s2_def
    by (rule performMove_step [OF s1(2) Suc.prems(2) Suc.prems(3) Suc.prems(5) s1(3) s1(5) okB])
  have nats: "nat f \<noteq> nat t" "nat f \<noteq> nat a" "nat t \<noteq> nat a" "nat f < 3" "nat t < 3" "nat a < 3"
    using Suc.prems(2-7) by auto
  have s2: "length (towers s2) = 3" "towers s2 ! nat f = A" "towers s2 ! nat t = B @ [?d]"
    "towers s2 ! nat a = C @ desc n" "moveCount s2 = moveCount s1 + 1" "numDisks s2 = numDisks s1"
    using nats s1 by (simp_all add: s2_def)
  \<comment> \<open>the upper \<open>n\<close> disks go from \<open>a\<close> to \<open>t\<close>\<close>
  from Suc.IH [OF s2(1) Suc.prems(4) Suc.prems(3) Suc.prems(2) Suc.prems(7) [symmetric]
      Suc.prems(6) [symmetric] Suc.prems(5) [symmetric] s2(4) s2(3) s2(2) abC abB' abA']
  obtain s3 where s3: "playMoves s2 (hanoi n a t f) = (True, s3)" "length (towers s3) = 3"
    "towers s3 ! nat a = C" "towers s3 ! nat t = (B @ [?d]) @ desc n" "towers s3 ! nat f = A"
    "moveCount s3 = moveCount s2 + (2 ^ n - 1)" "numDisks s3 = numDisks s2"
    by blast
  have "playMoves s (hanoi (Suc n) f t a) = (True, s3)"
    by (simp add: playMoves_append s1(1) pm s3(1))
  moreover have "moveCount s3 = moveCount s + (2 ^ Suc n - 1)"
  proof -
    have "(1::nat) \<le> 2 ^ n" by simp
    then show ?thesis
      using s3(6) s2(5) s1(6) by simp
  qed
  ultimately show ?case
    using s3 s2(6) s1(7) by simp
qed

lemma prepareSolution_pos:
  "1 \<le> n \<Longrightarrow>
   prepareSolution sv n =
     (Inr (hanoi (nat n) 0 2 1), sv\<lparr>moves := hanoi (nat n) 0 2 1, currentMoveIndex := 0\<rparr>)"
  by (simp add: prepareSolution_def gen_hanoi)

lemma init_solved:
  assumes "1 \<le> n" "n \<le> 15"
  shows "\<exists>s'. playMoves (init s0 n) (hanoi (nat n) 0 2 1) = (True, s')
            \<and> towers s' = [[], [], rev [1..n]]
            \<and> moveCount s' = 2 ^ nat n - 1 \<and> numDisks s' = n"
proof -
  have n: "max 1 (min 15 n) = n" "int (nat n) = n"
    using assms by simp_all
  have rd: "rev [1..n] = desc (nat n)"
    using rev_upto_desc [of "nat n"] by (simp only: n)
  have tw: "towers (init s0 n) = [desc (nat n), [], []]"
    by (simp add: init_eq n rd)
  have "\<exists>s'. playMoves (init s0 n) (hanoi (nat n) 0 2 1) = (True, s')
            \<and> length (towers s') = 3
            \<and> towers s' ! nat 0 = [] \<and> towers s' ! nat 2 = [] @ desc (nat n) \<and> towers s' ! nat 1 = []
            \<and> moveCount s' = moveCount (init s0 n) + (2 ^ nat n - 1)
            \<and> numDisks s' = numDisks (init s0 n)"
    by (rule hanoi_play) (simp_all add: tw above_def)
  then obtain s' where s': "playMoves (init s0 n) (hanoi (nat n) 0 2 1) = (True, s')"
    "length (towers s') = 3" "towers s' ! 0 = []" "towers s' ! 2 = desc (nat n)" "towers s' ! 1 = []"
    "moveCount s' = moveCount (init s0 n) + (2 ^ nat n - 1)" "numDisks s' = numDisks (init s0 n)"
    by auto
  from s'(2) obtain x y z where xyz: "towers s' = [x, y, z]"
    by (auto simp: length_Suc_conv numeral_3_eq_3)
  have "towers s' = [[], [], rev [1..n]]"
    using s'(3-5) xyz rd by simp
  then show ?thesis
    using s' by (simp add: init_eq n)
qed

text \<open>
  Claim C1. For every number of disks from 1 to 15, \<open>prepareSolution\<close> returns
  the moves it stored in \<open>this.moves\<close>, there are exactly \<open>2 ^ diskCount - 1\<close> of
  them, every \<open>performMove\<close> of the sequence succeeds when the moves are played in
  order from \<open>init(diskCount)\<close> (so \<open>canMove\<close> never gives an invalid verdict), and
  the game is won in the state reached.
\<close>

theorem solver_solution_solves:
  assumes "1 \<le> diskCount" "diskCount \<le> 15"
  shows "fst (prepareSolution sv diskCount) = Inr (moves (snd (prepareSolution sv diskCount)))
         \<and> length (moves (snd (prepareSolution sv diskCount))) = 2 ^ nat diskCount - 1
         \<and> fst (playMoves (init s0 diskCount) (moves (snd (prepareSolution sv diskCount)))) = True
         \<and> fst (isGameWon (snd (playMoves (init s0 diskCount)
                                   (moves (snd (prepareSolution sv diskCount)))))) = Inr True"
proof -
  from init_solved [OF assms, of s0]
  obtain s' where s': "playMoves (init s0 diskCount) (hanoi (nat diskCount) 0 2 1) = (True, s')"
    "towers s' = [[], [], rev [1..diskCount]]" "numDisks s' = diskCount"
    by blast
  have "fst (isGameWon s') = Inr True"
    using s'(2,3) assms(1) by (simp add: isGameWon_def tower_at_def)
  then show ?thesis
    using s'(1) assms(1) by (simp add: prepareSolution_pos length_hanoi)
qed

theorem solver_solution_solves_witness:
  "(1::int) \<le> 3 \<and> (3::int) \<le> 15
   \<and> fst (prepareSolution new_Solver 3) = Inr [(0, 2), (0, 1), (2, 1), (0, 2), (1, 0), (1, 2), (0, 2)]
   \<and> length (moves (snd (prepareSolution new_Solver 3))) = 7
   \<and> fst (playMoves (init (new_GameState 4) 3) (moves (snd (prepareSolution new_Solver 3)))) = True
   \<and> fst (isGameWon (snd (playMoves (init (new_GameState 4) 3)
                             (moves (snd (prepareSolution new_Solver 3)))))) = Inr True"
proof -
  have m: "moves (snd (prepareSolution new_Solver 3))
             = [(0, 2), (0, 1), (2, 1), (0, 2), (1, 0), (1, 2), (0, 2)]"
    by (simp add: prepareSolution_pos numeral_3_eq_3)
  show ?thesis
    using solver_solution_solves [of 3 new_Solver "new_GameState 4"]
    by (simp add: m)
qed

section \<open>The invariant of the towers\<close>

lemma decreasing_butlast: "decreasing xs \<Longrightarrow> decreasing (butlast xs)"
  unfolding decreasing_def
  by (cases xs rule: rev_cases) (simp_all add: sorted_wrt_append)

lemma decreasing_snoc:
  assumes "decreasing B" "B = [] \<or> \<not> last B < d" "d \<notin> set B"
  shows "decreasing (B @ [d])"
proof (cases B rule: rev_cases)
  case Nil
  then show ?thesis by (simp add: decreasing_def)
next
  case (snoc B' b)
  with assms have "d < b" "\<forall>x \<in> set B'. b < x" "sorted_wrt (\<lambda>lower upper. lower > upper) B'"
    by (auto simp: decreasing_def sorted_wrt_append)
  then show ?thesis
    using snoc by (auto simp: decreasing_def sorted_wrt_append)
qed

lemma towers_ok_iff:
  "towers s = [x, y, z] \<Longrightarrow>
   towers_ok s = (decreasing x \<and> decreasing y \<and> decreasing z
                  \<and> mset x + mset y + mset z = mset [1..numDisks s])"
  by (auto simp: towers_ok_def numeral_3_eq_3 less_Suc_eq add.assoc)

lemma snd_playMoves_Cons:
  "snd (playMoves s (m # ms)) = snd (playMoves (snd (performMove s (fst m) (snd m))) ms)"
  by (simp add: Let_def case_prod_beta)

lemma move_top:
  assumes "decreasing S" "decreasing T" "S \<noteq> []" "T = [] \<or> \<not> last T < last S"
    and "set S \<inter> set T = {}"
  shows "decreasing (butlast S)" "decreasing (T @ [last S])"
    "mset S = add_mset (last S) (mset (butlast S))"
proof -
  show "decreasing (butlast S)"
    using assms(1) by (rule decreasing_butlast)
  have "last S \<in> set S"
    using assms(3) by simp
  then have "last S \<notin> set T"
    using assms(5) by blast
  then show "decreasing (T @ [last S])"
    using assms(2,4) by (intro decreasing_snoc)
  have "mset S = mset (butlast S @ [last S])"
    using assms(3) by simp
  then show "mset S = add_mset (last S) (mset (butlast S))"
    by simp
qed

lemma towers_ok_performMove:
  assumes "towers_ok s"
  shows "towers_ok (snd (performMove s src tgt))"
proof (cases "valid (fst (canMove s src tgt))")
  case False
  then show ?thesis
    using assms by (simp add: performMove_invalid)
next
  case True
  from assms obtain x y z where xyz: "towers s = [x, y, z]"
    by (auto simp: towers_ok_def length_Suc_conv numeral_3_eq_3)
  from assms have dec: "decreasing x" "decreasing y" "decreasing z"
    and ms: "mset x + mset y + mset z = mset [1..numDisks s]"
    by (simp_all add: towers_ok_iff [OF xyz])
  have "mset (x @ y @ z) = mset [1..numDisks s]"
    using ms by (simp add: ac_simps)
  then have "distinct (x @ y @ z)"
    using distinct_upto mset_eq_imp_distinct_iff by blast
  then have dj: "set x \<inter> set y = {}" "set x \<inter> set z = {}" "set y \<inter> set z = {}"
    "set y \<inter> set x = {}" "set z \<inter> set x = {}" "set z \<inter> set y = {}"
    by auto
  let ?s' = "snd (performMove s src tgt)"
  from True have rng: "nat src < 3" "nat tgt < 3"
    and ne: "towers s ! nat src \<noteq> []"
    and ord: "towers s ! nat tgt = [] \<or> \<not> last (towers s ! nat tgt) < last (towers s ! nat src)"
    using xyz by (auto simp: canMove_valid_iff)
  have nd: "numDisks ?s' = numDisks s"
    by (simp add: performMove_valid [OF True])
  have three: "nat src = 0 \<or> nat src = 1 \<or> nat src = 2" "nat tgt = 0 \<or> nat tgt = 1 \<or> nat tgt = 2"
    using rng by (auto simp: numeral_3_eq_3 less_Suc_eq)
  consider "nat src = nat tgt"
    | "nat src = 0" "nat tgt = 1" | "nat src = 0" "nat tgt = 2"
    | "nat src = 1" "nat tgt = 0" | "nat src = 1" "nat tgt = 2"
    | "nat src = 2" "nat tgt = 0" | "nat src = 2" "nat tgt = 1"
    using three by (elim disjE) simp_all
  then show ?thesis
  proof cases
    case 1
    have "nat tgt < length (towers s)"
      using rng xyz by simp
    then have "towers ?s' = towers s"
      using 1 ne by (simp add: performMove_valid [OF True])
    then show ?thesis
      using assms nd by (simp add: towers_ok_def)
  next
    case 2
    have tw: "towers ?s' = [butlast x, y @ [last x], z]"
      using 2 xyz by (simp add: performMove_valid [OF True])
    have S: "x \<noteq> []" and T: "y = [] \<or> \<not> last y < last x"
      using 2 ne ord xyz by simp_all
    show ?thesis
      using move_top [OF dec(1) dec(2) S T dj(1)] dec ms
      by (simp add: towers_ok_iff [OF tw] nd)
  next
    case 3
    have tw: "towers ?s' = [butlast x, y, z @ [last x]]"
      using 3 xyz by (simp add: performMove_valid [OF True])
    have S: "x \<noteq> []" and T: "z = [] \<or> \<not> last z < last x"
      using 3 ne ord xyz by simp_all
    show ?thesis
      using move_top [OF dec(1) dec(3) S T dj(2)] dec ms
      by (simp add: towers_ok_iff [OF tw] nd)
  next
    case 4
    have tw: "towers ?s' = [x @ [last y], butlast y, z]"
      using 4 xyz by (simp add: performMove_valid [OF True])
    have S: "y \<noteq> []" and T: "x = [] \<or> \<not> last x < last y"
      using 4 ne ord xyz by simp_all
    show ?thesis
      using move_top [OF dec(2) dec(1) S T dj(4)] dec ms
      by (simp add: towers_ok_iff [OF tw] nd)
  next
    case 5
    have tw: "towers ?s' = [x, butlast y, z @ [last y]]"
      using 5 xyz by (simp add: performMove_valid [OF True])
    have S: "y \<noteq> []" and T: "z = [] \<or> \<not> last z < last y"
      using 5 ne ord xyz by simp_all
    show ?thesis
      using move_top [OF dec(2) dec(3) S T dj(3)] dec ms
      by (simp add: towers_ok_iff [OF tw] nd)
  next
    case 6
    have tw: "towers ?s' = [x @ [last z], y, butlast z]"
      using 6 xyz by (simp add: performMove_valid [OF True])
    have S: "z \<noteq> []" and T: "x = [] \<or> \<not> last x < last z"
      using 6 ne ord xyz by simp_all
    show ?thesis
      using move_top [OF dec(3) dec(1) S T dj(5)] dec ms
      by (simp add: towers_ok_iff [OF tw] nd)
  next
    case 7
    have tw: "towers ?s' = [x, y @ [last z], butlast z]"
      using 7 xyz by (simp add: performMove_valid [OF True])
    have S: "z \<noteq> []" and T: "y = [] \<or> \<not> last y < last z"
      using 7 ne ord xyz by simp_all
    show ?thesis
      using move_top [OF dec(3) dec(2) S T dj(6)] dec ms
      by (simp add: towers_ok_iff [OF tw] nd)
  qed
qed

lemma towers_ok_playMoves: "towers_ok s \<Longrightarrow> towers_ok (snd (playMoves s ms))"
proof (induction ms arbitrary: s)
  case Nil
  then show ?case by simp
next
  case (Cons m ms)
  have "towers_ok (snd (performMove s (fst m) (snd m)))"
    using Cons.prems by (rule towers_ok_performMove)
  from Cons.IH [OF this] show ?case
    by (simp only: snd_playMoves_Cons)
qed

lemma numDisks_playMoves: "numDisks (snd (playMoves s ms)) = numDisks s"
proof (induction ms arbitrary: s)
  case Nil
  show ?case by simp
next
  case (Cons m ms)
  have "numDisks (snd (performMove s (fst m) (snd m))) = numDisks s"
    by (cases "valid (fst (canMove s (fst m) (snd m)))")
      (simp_all add: performMove_invalid performMove_valid)
  with Cons.IH [of "snd (performMove s (fst m) (snd m))"] show ?case
    by (simp only: snd_playMoves_Cons)
qed

lemma towers_ok_init: "towers_ok (init s0 d)"
proof -
  have "decreasing (rev [1..max 1 (min 15 d)])"
    unfolding decreasing_def
    by (simp only: sorted_wrt_rev sorted_wrt_upto)
  then show ?thesis
    by (simp add: towers_ok_def init_eq numeral_3_eq_3 less_Suc_eq decreasing_def)
qed

lemma performMove_relocates:
  assumes "valid (fst (canMove s src tgt))"
  shows "0 \<le> src \<and> nat src < length (towers s) \<and> 0 \<le> tgt \<and> nat tgt < length (towers s)
        \<and> towers s ! nat src \<noteq> []
        \<and> length (towers (snd (performMove s src tgt))) = length (towers s)
        \<and> (src \<noteq> tgt \<longrightarrow>
              towers (snd (performMove s src tgt)) ! nat src = butlast (towers s ! nat src)
              \<and> towers (snd (performMove s src tgt)) ! nat tgt
                  = towers s ! nat tgt @ [last (towers s ! nat src)])
        \<and> (src = tgt \<longrightarrow>
              towers (snd (performMove s src tgt)) ! nat src = towers s ! nat src)
        \<and> (\<forall>k < length (towers s). k \<noteq> nat src \<longrightarrow> k \<noteq> nat tgt \<longrightarrow>
              towers (snd (performMove s src tgt)) ! k = towers s ! k)"
proof -
  from assms have rng: "0 \<le> src" "nat src < length (towers s)" "0 \<le> tgt" "nat tgt < length (towers s)"
    and ne: "towers s ! nat src \<noteq> []"
    by (auto simp: canMove_valid_iff)
  have neq: "src \<noteq> tgt \<Longrightarrow> nat src \<noteq> nat tgt"
    using rng by simp
  note pm = performMove_valid [OF assms]
  show ?thesis
  proof (cases "src = tgt")
    case True
    then show ?thesis
      unfolding pm using rng ne by (simp add: nth_list_update)
  next
    case False
    then show ?thesis
      unfolding pm using rng ne neq by (simp add: nth_list_update)
  qed
qed

text \<open>
  Claim C2 says that after \<open>init(diskCount)\<close>, for every \<open>diskCount\<close>, the
  towers hold exactly the sizes \<open>1, \<dots>, diskCount\<close>. \<open>init\<close> clamps its
  argument: after \<open>init(20)\<close> the state has 15 disks, and the towers do not hold
  the sizes \<open>1, \<dots>, 20\<close>.
\<close>

theorem clamped_disks_counterexample:
  "numDisks (snd (playMoves (init (new_GameState 4) 20) [])) = 15
   \<and> mset (concat (towers (snd (playMoves (init (new_GameState 4) 20) [])))) \<noteq> mset [1..20]"
proof -
  have held: "size (mset (concat (towers (snd (playMoves (init (new_GameState 4) 20) []))))) = 15"
    by (simp add: init_eq)
  have claimed: "size (mset [1..20::int]) = 20"
    by simp
  have "mset (concat (towers (snd (playMoves (init (new_GameState 4) 20) [])))) \<noteq> mset [1..20]"
  proof
    assume "mset (concat (towers (snd (playMoves (init (new_GameState 4) 20) [])))) = mset [1..20]"
    then have "size (mset (concat (towers (snd (playMoves (init (new_GameState 4) 20) [])))))
                 = size (mset [1..20::int])"
      by (rule arg_cong)
    with held claimed show False
      by simp
  qed
  then show ?thesis
    by (simp add: init_eq)
qed

text \<open>
  Claim C2, amended. In the state \<open>s\<close> reached from \<open>init(diskCount)\<close> by any sequence of
  \<open>performMove\<close> calls, successful or not: there are three towers, each strictly
  decreasing from bottom to top; the disk count of the state is the clamped
  \<open>diskCount\<close>, and the towers together hold each of the sizes \<open>1, \<dots>, numDisks\<close>
  exactly once (which is \<open>1, \<dots>, diskCount\<close> for a \<open>diskCount\<close> from 1 to 15). A
  further \<open>performMove(src, tgt)\<close> that succeeds takes the top disk of tower
  \<open>src\<close>, puts it on top of tower \<open>tgt\<close> and touches nothing else of the towers.
\<close>

theorem moves_keep_towers_ok:
  assumes "s = snd (playMoves (init s0 diskCount) ms)"
  shows "length (towers s) = 3
         \<and> (\<forall>i < 3. decreasing (towers s ! i))
         \<and> numDisks s = max 1 (min 15 diskCount)
         \<and> mset (concat (towers s)) = mset [1..numDisks s]
         \<and> (1 \<le> diskCount \<and> diskCount \<le> 15 \<longrightarrow>
               mset (concat (towers s)) = mset [1..diskCount])
         \<and> (fst (performMove s src tgt) \<longrightarrow>
               src \<in> {0, 1, 2} \<and> tgt \<in> {0, 1, 2} \<and> towers s ! nat src \<noteq> []
               \<and> (src \<noteq> tgt \<longrightarrow>
                     towers (snd (performMove s src tgt)) ! nat src = butlast (towers s ! nat src)
                     \<and> towers (snd (performMove s src tgt)) ! nat tgt
                         = towers s ! nat tgt @ [last (towers s ! nat src)])
               \<and> (src = tgt \<longrightarrow>
                     towers (snd (performMove s src tgt)) ! nat src = towers s ! nat src)
               \<and> (\<forall>k < 3. k \<noteq> nat src \<longrightarrow> k \<noteq> nat tgt \<longrightarrow>
                     towers (snd (performMove s src tgt)) ! k = towers s ! k))"
proof -
  have ok: "towers_ok s"
    unfolding assms by (intro towers_ok_playMoves towers_ok_init)
  have nd: "numDisks s = max 1 (min 15 diskCount)"
    unfolding assms by (simp add: numDisks_playMoves init_eq)
  have len: "length (towers s) = 3"
    using ok by (simp add: towers_ok_def)
  have rel: "src \<in> {0, 1, 2} \<and> tgt \<in> {0, 1, 2} \<and> towers s ! nat src \<noteq> []
               \<and> (src \<noteq> tgt \<longrightarrow>
                     towers (snd (performMove s src tgt)) ! nat src = butlast (towers s ! nat src)
                     \<and> towers (snd (performMove s src tgt)) ! nat tgt
                         = towers s ! nat tgt @ [last (towers s ! nat src)])
               \<and> (src = tgt \<longrightarrow>
                     towers (snd (performMove s src tgt)) ! nat src = towers s ! nat src)
               \<and> (\<forall>k < 3. k \<noteq> nat src \<longrightarrow> k \<noteq> nat tgt \<longrightarrow>
                     towers (snd (performMove s src tgt)) ! k = towers s ! k)"
    if "fst (performMove s src tgt)" for src tgt
  proof -
    from that have v: "valid (fst (canMove s src tgt))"
      by (simp add: performMove_result)
    have "src \<in> {0, 1, 2}" "tgt \<in> {0, 1, 2}"
      using performMove_relocates [OF v] len by auto
    then show ?thesis
      using performMove_relocates [OF v] len by simp
  qed
  show ?thesis
    using ok nd rel by (simp add: towers_ok_def)
qed

theorem moves_keep_towers_ok_witness:
  "scenarioA (new_GameState 4) = snd (playMoves (init (new_GameState 4) 3) [(0, 2), (0, 1)])
   \<and> towers (scenarioA (new_GameState 4)) = [[3], [2], [1]]
   \<and> decreasing (towers (scenarioA (new_GameState 4)) ! 0)
   \<and> decreasing (towers (scenarioA (new_GameState 4)) ! 1)
   \<and> decreasing (towers (scenarioA (new_GameState 4)) ! 2)
   \<and> mset (concat (towers (scenarioA (new_GameState 4)))) = mset [1..3]
   \<and> fst (performMove (scenarioA (new_GameState 4)) 2 1)
   \<and> towers (snd (performMove (scenarioA (new_GameState 4)) 2 1)) ! nat 2 = []
   \<and> towers (snd (performMove (scenarioA (new_GameState 4)) 2 1)) ! nat 1 = [2, 1]
   \<and> towers (snd (performMove (scenarioA (new_GameState 4)) 2 1)) ! 0 = [3]"
proof -
  have eq: "scenarioA (new_GameState 4) = snd (playMoves (init (new_GameState 4) 3) [(0, 2), (0, 1)])"
    by (simp add: scenarioA_def Let_def case_prod_beta)
  have pm: "fst (performMove (scenarioA (new_GameState 4)) 2 1)"
    by (simp add: performMove_result canMove_valid_iff scenarioA_eq)
  let ?S = "scenarioA (new_GameState 4)"
  note inv = moves_keep_towers_ok [OF eq, of 2 1]
  from inv have dec: "\<forall>i < 3. decreasing (towers ?S ! i)"
    and ms: "mset (concat (towers ?S)) = mset [1..numDisks ?S]"
    by blast+
  from inv pm have src: "towers (snd (performMove ?S 2 1)) ! 2 = butlast (towers ?S ! 2)"
    and tgt: "towers (snd (performMove ?S 2 1)) ! 1 = towers ?S ! 1 @ [last (towers ?S ! 2)]"
    and other: "\<forall>k < 3. k \<noteq> 2 \<longrightarrow> k \<noteq> 1 \<longrightarrow>
                  towers (snd (performMove ?S 2 1)) ! k = towers ?S ! k"
    by simp_all
  have nd: "numDisks ?S = 3" and tw: "towers ?S = [[3], [2], [1]]"
    by (simp_all add: scenarioA_eq)
  have "towers (snd (performMove ?S 2 1)) ! 0 = towers ?S ! 0"
    using other by simp
  moreover have "decreasing (towers ?S ! 0)" "decreasing (towers ?S ! 1)" "decreasing (towers ?S ! 2)"
    using dec by simp_all
  ultimately show ?thesis
    using eq ms pm src tgt unfolding nd tw by simp
qed

section \<open>Timed playback\<close>

lemma timer_prepareSolution: "timer (snd (prepareSolution sv n)) = timer sv"
  by (simp add: prepareSolution_def Let_def split: option.splits)

lemma playingI:
  assumes "0 < nextHandle pb"
    and "set (intervals pb) = set_option (timer (solver pb))"
    and "\<And>h. h \<in> set (intervals pb) \<Longrightarrow> 0 < h \<and> h < nextHandle pb"
    and "\<And>h. count_list (calls pb) (OnComplete h) \<le> 1"
    and "\<And>h. OnComplete h \<in> set (calls pb) \<Longrightarrow> h < nextHandle pb \<and> h \<notin> set (intervals pb)"
  shows "playing pb"
  using assms unfolding playing_def by blast

lemma playingD:
  assumes "playing pb"
  shows "0 < nextHandle pb"
    and "set (intervals pb) = set_option (timer (solver pb))"
    and "\<And>h. h \<in> set (intervals pb) \<Longrightarrow> 0 < h \<and> h < nextHandle pb"
    and "\<And>h. count_list (calls pb) (OnComplete h) \<le> 1"
    and "\<And>h. OnComplete h \<in> set (calls pb) \<Longrightarrow> h < nextHandle pb \<and> h \<notin> set (intervals pb)"
  using assms unfolding playing_def by blast+

lemma playing_new: "playing new_Playback"
  by (simp add: playing_def new_Playback_def new_Solver_def)

lemma stop_calls: "calls (stop pb) = calls pb"
  by (simp add: stop_def Let_def split: option.splits)

lemma stop_nextHandle: "nextHandle (stop pb) = nextHandle pb"
  by (simp add: stop_def Let_def split: option.splits)

lemma stop_clears:
  assumes "playing pb"
  shows "intervals (stop pb) = [] \<and> timer (solver (stop pb)) = None"
proof (cases "timer (solver pb)")
  case None
  with playingD(2) [OF assms] show ?thesis
    by (simp add: stop_def)
next
  case (Some h)
  with playingD(2) [OF assms] have hs: "set (intervals pb) = {h}"
    by simp
  then have "h \<in> set (intervals pb)"
    by simp
  from playingD(3) [OF assms this] have "h \<noteq> 0"
    by simp
  moreover have "removeAll h (intervals pb) = []"
    using hs by (auto simp: removeAll_filter_not_eq filter_empty_conv)
  ultimately show ?thesis
    using Some by (simp add: stop_def)
qed

lemma playing_stop:
  assumes "playing pb"
  shows "playing (stop pb)"
proof (rule playingI)
  show "0 < nextHandle (stop pb)"
    using playingD(1) [OF assms] by (simp add: stop_nextHandle)
  show "set (intervals (stop pb)) = set_option (timer (solver (stop pb)))"
    using stop_clears [OF assms] by simp
  show "0 < h \<and> h < nextHandle (stop pb)" if "h \<in> set (intervals (stop pb))" for h
    using that stop_clears [OF assms] by simp
  show "count_list (calls (stop pb)) (OnComplete h) \<le> 1" for h
    using playingD(4) [OF assms] by (simp add: stop_calls)
  show "h < nextHandle (stop pb) \<and> h \<notin> set (intervals (stop pb))"
    if "OnComplete h \<in> set (calls (stop pb))" for h
    using that playingD(5) [OF assms, of h] stop_clears [OF assms]
    by (simp add: stop_calls stop_nextHandle)
qed

lemma playing_start:
  assumes "playing pb" "timer (solver pb) = None"
  shows "playing (startAutoPlay pb)"
proof -
  have empty: "intervals pb = []"
    using playingD(2) [OF assms(1)] assms(2) by simp
  have sp: "startAutoPlay pb =
      pb\<lparr>intervals := [nextHandle pb], nextHandle := nextHandle pb + 1,
         solver := (solver pb)\<lparr>timer := Some (nextHandle pb)\<rparr>\<rparr>"
    by (simp add: startAutoPlay_def Let_def empty)
  show ?thesis
  proof (rule playingI)
    show "0 < nextHandle (startAutoPlay pb)"
      by (simp add: sp)
    show "set (intervals (startAutoPlay pb)) = set_option (timer (solver (startAutoPlay pb)))"
      by (simp add: sp)
    show "0 < h \<and> h < nextHandle (startAutoPlay pb)" if "h \<in> set (intervals (startAutoPlay pb))" for h
      using that playingD(1) [OF assms(1)] by (simp add: sp)
    show "count_list (calls (startAutoPlay pb)) (OnComplete h) \<le> 1" for h
      using playingD(4) [OF assms(1)] by (simp add: sp)
    show "h < nextHandle (startAutoPlay pb) \<and> h \<notin> set (intervals (startAutoPlay pb))"
      if "OnComplete h \<in> set (calls (startAutoPlay pb))" for h
      using that playingD(5) [OF assms(1), of h] by (auto simp: sp)
  qed
qed

lemma playing_prepare:
  assumes "playing pb"
  shows "playing (fire pb (PrepareSolution n))"
  using assms by (auto simp: playing_def timer_prepareSolution)

lemma playing_tick:
  assumes "playing pb" "h \<in> set (intervals pb)"
  shows "playing (tick pb h)"
proof (cases "currentMoveIndex (solver pb) \<ge> length (moves (solver pb))")
  case False
  then have t: "tick pb h =
      pb\<lparr>solver := (solver pb)\<lparr>currentMoveIndex := currentMoveIndex (solver pb) + 1\<rparr>,
         calls := calls pb @ [OnMove h (fst (moves (solver pb) ! currentMoveIndex (solver pb)))
                                      (snd (moves (solver pb) ! currentMoveIndex (solver pb)))]\<rparr>"
    by (simp add: tick_def getNextMove_def case_prod_beta)
  show ?thesis
    using assms(1) unfolding t playing_def by auto
next
  case True
  then have t: "tick pb h = (stop pb)\<lparr>calls := calls pb @ [OnComplete h]\<rparr>"
    by (simp add: tick_def getNextMove_def stop_calls)
  have lt: "h < nextHandle pb"
    using playingD(3) [OF assms(1) assms(2)] by simp
  have "OnComplete h \<notin> set (calls pb)"
    using playingD(5) [OF assms(1), of h] assms(2) by blast
  then have c0: "count_list (calls pb) (OnComplete h) = 0"
    by (simp add: count_list_0_iff)
  show ?thesis
  proof (rule playingI)
    show "0 < nextHandle (tick pb h)"
      using playingD(1) [OF assms(1)] by (simp add: t stop_nextHandle)
    show "set (intervals (tick pb h)) = set_option (timer (solver (tick pb h)))"
      using stop_clears [OF assms(1)] by (simp add: t)
    show "0 < k \<and> k < nextHandle (tick pb h)" if "k \<in> set (intervals (tick pb h))" for k
      using that stop_clears [OF assms(1)] by (simp add: t)
    show "count_list (calls (tick pb h)) (OnComplete k) \<le> 1" for k
      unfolding t using playingD(4) [OF assms(1), of k] c0 by (cases "h = k") simp_all
    show "k < nextHandle (tick pb h) \<and> k \<notin> set (intervals (tick pb h))"
      if "OnComplete k \<in> set (calls (tick pb h))" for k
      using that playingD(5) [OF assms(1), of k] lt stop_clears [OF assms(1)]
      by (auto simp: t stop_nextHandle)
  qed
qed

lemma playing_run: "playing pb \<Longrightarrow> orderly pb evs \<Longrightarrow> playing (run pb evs)"
proof (induction evs arbitrary: pb)
  case Nil
  then show ?case by simp
next
  case (Cons ev evs)
  show ?case
  proof (cases ev)
    case (PrepareSolution n)
    with Cons.prems playing_prepare [of pb n] show ?thesis
      using Cons.IH [of "fire pb ev"] by simp
  next
    case StartAutoPlay
    with Cons.prems playing_start [of pb] show ?thesis
      using Cons.IH [of "fire pb ev"] by simp
  next
    case (Tick h)
    with Cons.prems playing_tick [of pb h] show ?thesis
      using Cons.IH [of "fire pb ev"] by (cases "h \<in> set (intervals pb)") simp_all
  next
    case Stop
    with Cons.prems playing_stop [of pb] show ?thesis
      using Cons.IH [of "fire pb ev"] by simp
  qed
qed

lemma ticks_without_interval: "intervals pb = [] \<Longrightarrow> run pb (map Tick hs) = pb"
  by (induction hs) simp_all

text \<open>
  Claim C9 says that, for every interleaving of \<open>startAutoPlay\<close>, ticks and
  \<open>stop\<close>, \<open>onComplete\<close> runs at most once per session and no tick does anything
  after \<open>stop\<close>. Two \<open>startAutoPlay\<close> calls in a row leave the first interval
  scheduled with no handle kept; \<open>stop\<close> clears only the second. The first
  interval then goes on ticking after \<open>stop\<close>, and each of its ticks finds no move
  and calls \<open>onComplete\<close> again.
\<close>

theorem playback_double_start_counterexample:
  "calls (run new_Playback [StartAutoPlay, StartAutoPlay, Stop]) = []
   \<and> calls (run new_Playback [StartAutoPlay, StartAutoPlay, Stop, Tick 1, Tick 1])
       = [OnComplete 1, OnComplete 1]"
  by (simp add: new_Playback_def new_Solver_def startAutoPlay_def stop_def tick_def
      getNextMove_def Let_def)

text \<open>
  Claim C9, amended. In an orderly playback (each \<open>startAutoPlay\<close> happens while no
  interval of the solver is scheduled) \<open>onComplete\<close> is called at most once for each
  session \<open>h\<close>; and after \<open>stop()\<close> no interval is scheduled, \<open>isRunning()\<close> is
  false, and the ticks \<open>hs\<close> the host may still attempt call neither \<open>onMove\<close> nor
  \<open>onComplete\<close> and change nothing.
\<close>

theorem playback_orderly:
  assumes "orderly new_Playback evs"
  shows "count_list (calls (run new_Playback evs)) (OnComplete h) \<le> 1
         \<and> intervals (stop (run new_Playback evs)) = []
         \<and> isRunning (solver (stop (run new_Playback evs))) = False
         \<and> run (stop (run new_Playback evs)) (map Tick hs) = stop (run new_Playback evs)"
proof -
  have p: "playing (run new_Playback evs)"
    using playing_new assms by (rule playing_run)
  show ?thesis
    using playingD(4) [OF p, of h] stop_clears [OF p]
    by (simp add: ticks_without_interval isRunning_def)
qed

theorem playback_orderly_witness:
  "calls (run new_Playback
            [PrepareSolution 1, StartAutoPlay, Tick 1, Tick 1, Tick 1, StartAutoPlay, Tick 2])
     = [OnMove 1 0 2, OnComplete 1, OnComplete 2]
   \<and> count_list (calls (run new_Playback
        [PrepareSolution 1, StartAutoPlay, Tick 1, Tick 1, Tick 1, StartAutoPlay, Tick 2]))
        (OnComplete 1) \<le> 1
   \<and> run (stop (run new_Playback
        [PrepareSolution 1, StartAutoPlay, Tick 1, Tick 1, Tick 1, StartAutoPlay, Tick 2]))
        (map Tick [1, 2, 2])
      = stop (run new_Playback
        [PrepareSolution 1, StartAutoPlay, Tick 1, Tick 1, Tick 1, StartAutoPlay, Tick 2])"
proof -
  have o: "orderly new_Playback
      [PrepareSolution 1, StartAutoPlay, Tick 1, Tick 1, Tick 1, StartAutoPlay, Tick 2]"
    by code_simp
  have c: "calls (run new_Playback
            [PrepareSolution 1, StartAutoPlay, Tick 1, Tick 1, Tick 1, StartAutoPlay, Tick 2])
     = [OnMove 1 0 2, OnComplete 1, OnComplete 2]"
    by code_simp
  note p = playback_orderly [OF o, of 1 "[1, 2, 2]"]
  show ?thesis
    by (intro conjI c conjunct1 [OF p] conjunct2 [OF conjunct2 [OF conjunct2 [OF p]]])
qed

end
